theory Spec2Isabelle
  imports Main "HOL-Library.AList"
begin

section \<open>The cluster view of pykafka (pykafka/cluster.py)\<close>

text \<open>
  The class \<open>Cluster\<close> keeps two dictionaries, \<open>_brokers\<close> (broker id to broker handle)
  and \<open>_topics\<close> (topic name to topic handle), refreshes them from a metadata snapshot
  and finds the offset manager of a consumer group.

  A Python dictionary is modelled as an association list in its iteration order:
  \<open>k in d\<close> and \<open>d.get(k, None)\<close> are \<^const>\<open>map_of\<close>, \<open>d.keys()\<close> is \<open>map fst\<close>,
  \<open>d.values()\<close> is \<open>map snd\<close>, \<open>d[k] = v\<close> is \<^const>\<open>AList.update\<close> (in place for a known
  key, at the end for a new one) and \<open>d.pop(k)\<close> is \<^const>\<open>AList.delete\<close>. The keys of a
  dictionary are distinct; where a property needs that of a snapshot it is a hypothesis.

  Exceptions are values of the type \<open>error\<close>. A method that mutates \<open>self\<close> returns the
  cluster it leaves behind together with its result, also when it raises: the source
  has no rollback. Log calls are left out.
\<close>

subsection \<open>Collaborators: broker and topic handles, metadata\<close>

text \<open>
  Modelled from the spec: \<open>protocol.BrokerMetadata\<close> (pykafka/protocol.py) is not among
  the sources. The spec gives it
  an identity, a host and a port; the port decoded from the wire is a number.
\<close>

record broker_metadata =
  meta_id :: int
  meta_host :: string
  meta_port :: int

text \<open>
  The port of a handle is a number when the handle is built from metadata and the text
  after the colon when \<open>_get_metadata\<close> builds it from a seed entry.
\<close>

datatype port = PortNum int | PortStr string

text \<open>
  Modelled from the spec: \<open>broker.Broker\<close> (pykafka/broker.py) is not among the
  sources. A handle is constructible
  from \<open>(id, host, port, driver, timeouts, buffer_size)\<close> or from metadata via a factory,
  and exposes \<open>host\<close> and \<open>port\<close>. The driver, the timeouts and the buffer size are
  handed through by \<open>Cluster\<close> and never read by it, so the handle keeps identity, host
  and port. \<open>broker_obj\<close> is the identity of the Python object: every construction
  takes the next unused number, so two handles are the same object exactly when their
  numbers agree.
\<close>

record broker =
  broker_obj :: nat
  broker_id :: int
  host :: string
  port :: port

definition Broker :: "nat \<Rightarrow> int \<Rightarrow> string \<Rightarrow> port \<Rightarrow> broker" where
  "Broker obj i h p = \<lparr>broker_obj = obj, broker_id = i, host = h, port = p\<rparr>"

definition from_metadata :: "nat \<Rightarrow> broker_metadata \<Rightarrow> broker" where
  "from_metadata obj meta = Broker obj (meta_id meta) (meta_host meta) (PortNum (meta_port meta))"

text \<open>
  Modelled from the spec: \<open>topic.Topic\<close> (pykafka/topic.py) is not among the sources.
  A topic handle is constructible
  from \<open>(cluster, metadata)\<close> and exposes \<open>update(metadata)\<close>, which reconciles the
  handle's partitions in place. The metadata of a topic is opaque to \<open>Cluster\<close> (the
  type variable \<open>'tm\<close>); the handle remembers the metadata it was last given, and
  \<open>update\<close> keeps the object.
\<close>

record 'tm topic =
  topic_obj :: nat
  topic_meta :: "'tm"

definition Topic :: "nat \<Rightarrow> 'tm \<Rightarrow> 'tm topic" where
  "Topic obj meta = \<lparr>topic_obj = obj, topic_meta = meta\<rparr>"

definition topic_update :: "'tm topic \<Rightarrow> 'tm \<Rightarrow> 'tm topic" where
  "topic_update t meta = t\<lparr>topic_meta := meta\<rparr>"

text \<open>
  The answer of \<open>broker.request_metadata()\<close>: the dictionaries \<open>metadata.brokers\<close> and
  \<open>metadata.topics\<close>, each in the order \<open>iteritems()\<close> walks it.
\<close>

record 'tm metadata =
  md_brokers :: "(int \<times> broker_metadata) list"
  md_topics :: "(string \<times> 'tm) list"

subsection \<open>The cluster and its errors\<close>

text \<open>
  The fields \<open>__init__\<close> sets and the methods below read. \<open>next_obj\<close> is the allocator
  behind \<open>broker_obj\<close> and \<open>topic_obj\<close>.
\<close>

record 'tm cluster =
  seed_hosts :: string
  brokers :: "(int \<times> broker) list"
  topics :: "(string \<times> 'tm topic) list"
  exclude_internal_topics :: bool
  next_obj :: nat

text \<open>
  The source raises plain \<open>Exception\<close> objects told apart by their message; the spec
  names them. An exception of a collaborator is a text of type \<open>exn\<close>.
  \<^item> \<open>ClusterUnreachable\<close>: \<open>Exception('Unable to connect to a broker to fetch metadata.')\<close>
  \<^item> \<open>TopologyChangeRejected b\<close>: \<open>Exception('Broker host/port change detected! %s', broker)\<close>
  \<^item> \<open>CoordinatorUnknown i\<close>: \<open>Exception('Coordinator broker with id {} not found')\<close>
  \<^item> \<open>CoordinatorDiscoveryFailed e\<close>: the failure \<open>e\<close> of the last coordinator query,
    raised again by the bare \<open>raise\<close> of \<open>get_offset_manager\<close>
  \<^item> \<open>MetadataRequestFailed e\<close>: the failure \<open>e\<close> of \<open>request_metadata\<close>, raised again
    by the bare \<open>raise\<close> of \<open>_get_metadata\<close>
  \<^item> \<open>ValueError\<close>: unpacking \<open>h, p = broker.split(':')\<close> with other than two parts
  \<^item> \<open>IndexError\<close>: \<open>random.choice\<close> on an empty sequence
  \<^item> \<open>KeyError\<close>: \<open>self.brokers[k]\<close> for a key that is not there
\<close>

type_synonym exn = string

datatype error =
    ClusterUnreachable
  | TopologyChangeRejected broker
  | CoordinatorUnknown int
  | CoordinatorDiscoveryFailed exn
  | MetadataRequestFailed exn
  | ValueError
  | IndexError
  | KeyError

subsection \<open>\<open>_update_brokers\<close>\<close>

text \<open>
  \<open>removed = set(self._brokers.keys()) - set(broker_metadata.keys())\<close>, as the list of
  its elements. The set has every key once, so each \<open>pop\<close> finds its key.
\<close>

definition removed_keys :: "('k \<times> 'v) list \<Rightarrow> ('k \<times> 'w) list \<Rightarrow> 'k list" where
  "removed_keys current fresh = remdups [k \<leftarrow> map fst current. k \<notin> set (map fst fresh)]"

text \<open>The test \<open>meta.host == broker.host and meta.port == broker.port\<close>.\<close>

definition same_address :: "broker_metadata \<Rightarrow> broker \<Rightarrow> bool" where
  "same_address meta b \<longleftrightarrow> meta_host meta = host b \<and> PortNum (meta_port meta) = port b"

text \<open>
  The loop \<open>for id_, meta in broker_metadata.iteritems()\<close> (\<open>bid\<close> is \<open>id_\<close>): a new id
  gets a handle built by \<open>Broker.from_metadata\<close>, a known id with the same address is
  skipped, a known id with another address raises and ends the loop.
\<close>

fun update_brokers_loop ::
  "'tm cluster \<Rightarrow> (int \<times> broker_metadata) list \<Rightarrow> (error + unit) \<times> 'tm cluster" where
  "update_brokers_loop c [] = (Inr (), c)"
| "update_brokers_loop c ((bid, meta) # rest) =
     (case map_of (brokers c) bid of
        None \<Rightarrow>
          update_brokers_loop
            (c\<lparr>brokers := AList.update bid (from_metadata (next_obj c) meta) (brokers c),
               next_obj := Suc (next_obj c)\<rparr>) rest
      | Some b \<Rightarrow>
          if same_address meta b then update_brokers_loop c rest
          else (Inl (TopologyChangeRejected b), c))"

definition update_brokers ::
  "'tm cluster \<Rightarrow> (int \<times> broker_metadata) list \<Rightarrow> (error + unit) \<times> 'tm cluster" where
  "update_brokers c broker_metadata =
     (let removed = removed_keys (brokers c) broker_metadata;
          c1 = c\<lparr>brokers := fold AList.delete removed (brokers c)\<rparr>
      in update_brokers_loop c1 broker_metadata)"

subsection \<open>\<open>_should_exclude_topic\<close> and \<open>_update_topics\<close>\<close>

text \<open>\<open>s.startswith(p)\<close> of Python strings.\<close>

definition startswith :: "string \<Rightarrow> string \<Rightarrow> bool" where
  "startswith s p \<longleftrightarrow> take (length p) s = p"

definition should_exclude_topic :: "'tm cluster \<Rightarrow> string \<Rightarrow> bool" where
  "should_exclude_topic c topic_name =
     (if \<not> exclude_internal_topics c then False else startswith topic_name ''__'')"

text \<open>
  The loop \<open>for name, meta in metadata.iteritems()\<close>: an excluded name is skipped, a new
  name gets \<open>Topic(self, meta)\<close>, a known name has its handle updated in place.
\<close>

fun update_topics_loop :: "'tm cluster \<Rightarrow> (string \<times> 'tm) list \<Rightarrow> 'tm cluster" where
  "update_topics_loop c [] = c"
| "update_topics_loop c ((name, meta) # rest) =
     (if \<not> should_exclude_topic c name then
        (case map_of (topics c) name of
           None \<Rightarrow>
             update_topics_loop
               (c\<lparr>topics := AList.update name (Topic (next_obj c) meta) (topics c),
                  next_obj := Suc (next_obj c)\<rparr>) rest
         | Some t \<Rightarrow>
             update_topics_loop
               (c\<lparr>topics := AList.update name (topic_update t meta) (topics c)\<rparr>) rest)
      else update_topics_loop c rest)"

definition update_topics :: "'tm cluster \<Rightarrow> (string \<times> 'tm) list \<Rightarrow> 'tm cluster" where
  "update_topics c metadata =
     (let removed = removed_keys (topics c) metadata;
          c1 = c\<lparr>topics := fold AList.delete removed (topics c)\<rparr>
      in update_topics_loop c1 metadata)"

subsection \<open>\<open>_get_metadata\<close>, \<open>update\<close> and \<open>__init__\<close>\<close>

text \<open>
  \<open>s.split(sep)\<close> of Python strings for a separator of one character: the pieces
  between the separators, so one piece more than there are separators.
\<close>

fun str_split :: "string \<Rightarrow> char \<Rightarrow> string list" where
  "str_split [] sep = [[]]"
| "str_split (x # xs) sep =
     (if x = sep then [] # str_split xs sep
      else (case str_split xs sep of
              [] \<Rightarrow> [[x]]
            | w # ws \<Rightarrow> (x # w) # ws))"

text \<open>
  The list \<open>brokers\<close> that \<open>_get_metadata\<close> walks holds broker handles
  (\<open>self.brokers.values()\<close>) or strings (the pieces of the seed list);
  \<open>isinstance(broker, basestring)\<close> tells them apart.
\<close>

datatype candidate = Handle broker | Seed string

text \<open>
  \<open>broker.request_metadata()\<close> talks to the network: its answer for each handle is a
  parameter, \<open>Inl\<close> when it raises.
\<close>

type_synonym 'tm request_metadata = "broker \<Rightarrow> exn + 'tm metadata"

text \<open>
  The loop \<open>for broker in brokers\<close>. Its body returns the answer or, through
  \<open>except Exception: ... raise\<close>, raises what went wrong, so it never reaches a second
  candidate; the \<open>raise\<close> after the loop is what an empty list gets. The handle built
  for a seed entry is dropped after the request; it does not move the allocator.
\<close>

fun get_metadata_loop ::
  "'tm request_metadata \<Rightarrow> 'tm cluster \<Rightarrow> candidate list \<Rightarrow> error + 'tm metadata" where
  "get_metadata_loop request_metadata c [] = Inl ClusterUnreachable"
| "get_metadata_loop request_metadata c (Seed s # rest) =
     (case str_split s CHR '':'' of
        [h, p] \<Rightarrow>
          (case request_metadata (Broker (next_obj c) (- 1) h (PortStr p)) of
             Inl e \<Rightarrow> Inl (MetadataRequestFailed e)
           | Inr md \<Rightarrow> Inr md)
      | _ \<Rightarrow> Inl ValueError)"
| "get_metadata_loop request_metadata c (Handle b # rest) =
     (case request_metadata b of
        Inl e \<Rightarrow> Inl (MetadataRequestFailed e)
      | Inr md \<Rightarrow> Inr md)"

definition get_metadata :: "'tm request_metadata \<Rightarrow> 'tm cluster \<Rightarrow> error + 'tm metadata" where
  "get_metadata request_metadata c =
     (let bs = (if brokers c \<noteq> [] then map Handle (map snd (brokers c))
                else map Seed (str_split (seed_hosts c) CHR '',''))
      in get_metadata_loop request_metadata c bs)"

definition update :: "'tm request_metadata \<Rightarrow> 'tm cluster \<Rightarrow> (error + unit) \<times> 'tm cluster" where
  "update request_metadata c =
     (case get_metadata request_metadata c of
        Inl e \<Rightarrow> (Inl e, c)
      | Inr md \<Rightarrow>
          (case update_brokers c (md_brokers md) of
             (Inl e, c1) \<Rightarrow> (Inl e, c1)
           | (Inr u, c1) \<Rightarrow> (Inr (), update_topics c1 (md_topics md))))"

text \<open>
  \<open>__init__\<close> stores its arguments, starts with empty dictionaries and calls
  \<open>self.update()\<close>; \<open>new_cluster\<close> is the object just before that call.
\<close>

definition new_cluster :: "string \<Rightarrow> bool \<Rightarrow> 'tm cluster" where
  "new_cluster hosts exclude =
     \<lparr>seed_hosts = hosts, brokers = [], topics = [],
      exclude_internal_topics = exclude, next_obj = 0\<rparr>"

definition init :: "'tm request_metadata \<Rightarrow> string \<Rightarrow> bool \<Rightarrow> (error + unit) \<times> 'tm cluster" where
  "init request_metadata hosts exclude = update request_metadata (new_cluster hosts exclude)"

text \<open>
  A sequence of \<open>update()\<close> calls, one network behaviour per call. A call that raises
  leaves the cluster as far as it got, and the next call goes on from there.
\<close>

fun run_updates :: "'tm cluster \<Rightarrow> 'tm request_metadata list \<Rightarrow> 'tm cluster" where
  "run_updates c [] = c"
| "run_updates c (rm # rms) = run_updates (snd (update rm c)) rms"

subsection \<open>\<open>get_offset_manager\<close>\<close>

text \<open>
  What a call does to the outside world, in order: a coordinator query sent through a
  broker for a group, and \<open>time.sleep\<close> with its duration in seconds.
\<close>

datatype event = Query broker string | Sleep nat

text \<open>
  The try block (\<open>ConsumerMetadataRequest\<close>, \<open>broker.handler.request\<close>, \<open>future.get\<close>)
  talks to the network: its outcome is a parameter, indexed by the broker asked, the
  group and the number of the attempt (the value of \<open>retries\<close> after \<open>retries += 1\<close>);
  \<open>Inl\<close> is an exception, \<open>Inr\<close> the \<open>coordinator_id\<close> of the response.
\<close>

type_synonym request = "broker \<Rightarrow> string \<Rightarrow> nat \<Rightarrow> exn + int"

definition MAX_RETRIES :: nat where
  "MAX_RETRIES = 3"

text \<open>
  \<open>random.choice(seq)\<close> with the number \<open>r\<close> the generator yields: an element of a
  non-empty sequence, \<open>IndexError\<close> on an empty one.
\<close>

definition random_choice :: "nat \<Rightarrow> 'a list \<Rightarrow> error + 'a" where
  "random_choice r seq = (if seq = [] then Inl IndexError else Inr (seq ! (r mod length seq)))"

text \<open>
  The loop \<open>while True\<close> with its variables \<open>backoff\<close> and \<open>retries\<close>; \<open>n\<close> is \<open>retries\<close>
  after the increment. The method assigns nothing to \<open>self\<close>: the cluster comes back
  as it went in.
\<close>

function offset_manager_loop ::
  "request \<Rightarrow> 'tm cluster \<Rightarrow> broker \<Rightarrow> string \<Rightarrow> nat \<Rightarrow> nat \<Rightarrow> event list
     \<Rightarrow> (error + broker) \<times> 'tm cluster \<times> event list" where
  "offset_manager_loop req c b consumer_group backoff retries tr =
     (let n = retries + 1; tr1 = tr @ [Query b consumer_group] in
      case req b consumer_group n of
        Inl e \<Rightarrow>
          if n < MAX_RETRIES then
            offset_manager_loop req c b consumer_group (backoff ^ 2) n (tr1 @ [Sleep backoff])
          else (Inl (CoordinatorDiscoveryFailed e), c, tr1)
      | Inr coordinator_id \<Rightarrow>
          (case map_of (brokers c) coordinator_id of
             None \<Rightarrow> (Inl (CoordinatorUnknown coordinator_id), c, tr1)
           | Some coordinator \<Rightarrow> (Inr coordinator, c, tr1)))"
  by pat_completeness auto
termination
  by (relation "measure (\<lambda>(req, c, b, g, backoff, retries, tr). MAX_RETRIES - retries)")
     (auto simp: MAX_RETRIES_def)

text \<open>
  \<open>rnd\<close> is the sequence of numbers the random generator yields during the call. The
  broker is chosen before the loop, with the first of them.
\<close>

definition get_offset_manager ::
  "(nat \<Rightarrow> nat) \<Rightarrow> request \<Rightarrow> 'tm cluster \<Rightarrow> string
     \<Rightarrow> (error + broker) \<times> 'tm cluster \<times> event list" where
  "get_offset_manager rnd req c consumer_group =
     (case random_choice (rnd 0) (map fst (brokers c)) of
        Inl e \<Rightarrow> (Inl e, c, [])
      | Inr k \<Rightarrow>
          (case map_of (brokers c) k of
             None \<Rightarrow> (Inl KeyError, c, [])
           | Some b \<Rightarrow> offset_manager_loop req c b consumer_group 2 0 []))"

subsection \<open>Reading a run of \<open>get_offset_manager\<close>\<close>

text \<open>The brokers the queries of a trace were sent to, and the durations slept, in order.\<close>

fun query_targets :: "event list \<Rightarrow> broker list" where
  "query_targets [] = []"
| "query_targets (Query b g # tr) = b # query_targets tr"
| "query_targets (Sleep d # tr) = query_targets tr"

fun sleep_durations :: "event list \<Rightarrow> nat list" where
  "sleep_durations [] = []"
| "sleep_durations (Query b g # tr) = sleep_durations tr"
| "sleep_durations (Sleep d # tr) = d # sleep_durations tr"

text \<open>
  The handle that \<open>self.brokers[random.choice(self.brokers.keys())]\<close> yields when the
  generator yields \<open>r\<close>, if it yields one.
\<close>

definition chosen_broker :: "nat \<Rightarrow> 'tm cluster \<Rightarrow> broker option" where
  "chosen_broker r c =
     (case random_choice r (map fst (brokers c)) of
        Inl e \<Rightarrow> None
      | Inr k \<Rightarrow> map_of (brokers c) k)"

text \<open>
  The progression the spec describes for the waits: the first wait is \<open>w\<close> and each
  later wait is the one before raised to its own power.
\<close>

fun self_exponentiation :: "nat \<Rightarrow> nat list \<Rightarrow> bool" where
  "self_exponentiation w [] = True"
| "self_exponentiation w (d # ds) = (d = w \<and> self_exponentiation (w ^ w) ds)"

text \<open>
  The reading of the spec in which every attempt picks its broker afresh: attempt
  \<open>i + 1\<close> goes to the broker chosen with the number the generator yields at
  position \<open>i\<close>.
\<close>

definition reselected_targets :: "(nat \<Rightarrow> nat) \<Rightarrow> 'tm cluster \<Rightarrow> nat \<Rightarrow> broker option list" where
  "reselected_targets rnd c n = map (\<lambda>i. chosen_broker (rnd i) c) [0..<n]"

subsection \<open>Reading the topic map\<close>

text \<open>
  Which Python object sits under which name of the topic map: two clusters with the
  same \<open>topic_objs\<close> hold the same handle objects under the same names, whatever
  \<open>Topic.update\<close> did inside them.
\<close>

definition topic_objs :: "'tm cluster \<Rightarrow> (string \<times> nat) list" where
  "topic_objs c = map (\<lambda>(name, t). (name, topic_obj t)) (topics c)"

subsection \<open>Example data\<close>

text \<open>
  The brokers and snapshots of the spec's example scenarios: broker 1 at 10.0.0.1:9092,
  broker 2 at 10.0.0.2:9092, the topic \<open>orders\<close> and the internal topic
  \<open>__consumer_offsets\<close>. Topic metadata is a number here.
\<close>

definition meta1 :: broker_metadata where
  "meta1 = \<lparr>meta_id = 1, meta_host = ''10.0.0.1'', meta_port = 9092\<rparr>"

definition meta2 :: broker_metadata where
  "meta2 = \<lparr>meta_id = 2, meta_host = ''10.0.0.2'', meta_port = 9092\<rparr>"

definition meta1_moved :: broker_metadata where
  "meta1_moved = \<lparr>meta_id = 1, meta_host = ''10.0.0.9'', meta_port = 9092\<rparr>"

definition broker1 :: broker where
  "broker1 = from_metadata 0 meta1"

definition broker2 :: broker where
  "broker2 = from_metadata 2 meta2"

definition snapshot1 :: "nat metadata" where
  "snapshot1 = \<lparr>md_brokers = [(1, meta1)], md_topics = [(''orders'', 10)]\<rparr>"

definition snapshot2 :: "nat metadata" where
  "snapshot2 = \<lparr>md_brokers = [(1, meta1), (2, meta2)],
                 md_topics = [(''orders'', 11), (''__consumer_offsets'', 12)]\<rparr>"

definition answer1 :: "nat request_metadata" where
  "answer1 b = Inr snapshot1"

definition answer2 :: "nat request_metadata" where
  "answer2 b = Inr snapshot2"

text \<open>The cluster after construction on the first snapshot, and after the second.\<close>

definition cluster1 :: "nat cluster" where
  "cluster1 =
     \<lparr>seed_hosts = ''10.0.0.1:9092'', brokers = [(1, broker1)],
      topics = [(''orders'', Topic 1 10)], exclude_internal_topics = True, next_obj = 2\<rparr>"

definition cluster2 :: "nat cluster" where
  "cluster2 =
     \<lparr>seed_hosts = ''10.0.0.1:9092'', brokers = [(1, broker1), (2, broker2)],
      topics = [(''orders'', Topic 1 11)], exclude_internal_topics = True, next_obj = 3\<rparr>"

text \<open>
  Network behaviours for the coordinator query: every attempt times out; the first two
  time out and the third names broker 2; the first names the unknown broker 99. And two
  generators: one that yields 0, 1, 2, ... and one that always yields 0.
\<close>

definition always_timeout :: request where
  "always_timeout b g n = Inl ''timeout''"

definition third_succeeds :: request where
  "third_succeeds b g n = (if n < 3 then Inl ''timeout'' else Inr 2)"

definition names_99 :: request where
  "names_99 b g n = Inr 99"

definition counting :: "nat \<Rightarrow> nat" where
  "counting n = n"

definition zeros :: "nat \<Rightarrow> nat" where
  "zeros n = 0"

section \<open>Properties of \<open>get_offset_manager\<close>\<close>

declare offset_manager_loop.simps [simp del]

text \<open>
  The loop starts with \<open>retries = 0\<close> and stops at the third attempt at the latest,
  so it unfolds into its three attempts.
\<close>

lemma offset_manager_loop_third:
  "offset_manager_loop req c b g w 2 tr =
     (case req b g 3 of
        Inl e \<Rightarrow> (Inl (CoordinatorDiscoveryFailed e), c, tr @ [Query b g])
      | Inr i \<Rightarrow>
          (case map_of (brokers c) i of
             None \<Rightarrow> (Inl (CoordinatorUnknown i), c, tr @ [Query b g])
           | Some co \<Rightarrow> (Inr co, c, tr @ [Query b g])))"
  by (subst offset_manager_loop.simps)
     (simp add: MAX_RETRIES_def Let_def numeral_3_eq_3 split: sum.splits option.splits)

lemma offset_manager_loop_second:
  "offset_manager_loop req c b g w (Suc 0) tr =
     (case req b g 2 of
        Inl e \<Rightarrow> offset_manager_loop req c b g (w ^ 2) 2 (tr @ [Query b g, Sleep w])
      | Inr i \<Rightarrow>
          (case map_of (brokers c) i of
             None \<Rightarrow> (Inl (CoordinatorUnknown i), c, tr @ [Query b g])
           | Some co \<Rightarrow> (Inr co, c, tr @ [Query b g])))"
  by (subst offset_manager_loop.simps)
     (simp add: MAX_RETRIES_def Let_def numeral_2_eq_2 split: sum.splits option.splits)

lemma offset_manager_loop_first:
  "offset_manager_loop req c b g w 0 tr =
     (case req b g 1 of
        Inl e \<Rightarrow> offset_manager_loop req c b g (w ^ 2) (Suc 0) (tr @ [Query b g, Sleep w])
      | Inr i \<Rightarrow>
          (case map_of (brokers c) i of
             None \<Rightarrow> (Inl (CoordinatorUnknown i), c, tr @ [Query b g])
           | Some co \<Rightarrow> (Inr co, c, tr @ [Query b g])))"
  by (subst offset_manager_loop.simps)
     (simp add: MAX_RETRIES_def Let_def split: sum.splits option.splits)

lemmas offset_manager_loop_unfold =
  offset_manager_loop_first offset_manager_loop_second offset_manager_loop_third

text \<open>A cluster that knows a broker always yields a handle to ask.\<close>

lemma chosen_broker_nonempty:
  assumes "brokers c \<noteq> []"
  shows "\<exists>b. chosen_broker r c = Some b"
proof -
  let ?ks = "map fst (brokers c)"
  have "?ks ! (r mod length ?ks) \<in> set ?ks"
    using assms by (intro nth_mem) simp
  then obtain b where "map_of (brokers c) (?ks ! (r mod length ?ks)) = Some b"
    by (metis map_of_eq_None_iff not_Some_eq set_map)
  then show ?thesis
    using assms by (auto simp: chosen_broker_def random_choice_def)
qed

lemma get_offset_manager_chosen:
  "chosen_broker (rnd 0) c = Some b \<Longrightarrow>
     get_offset_manager rnd req c g = offset_manager_loop req c b g 2 0 []"
  by (auto simp: chosen_broker_def get_offset_manager_def split: sum.splits)

lemma get_offset_manager_not_chosen:
  "chosen_broker (rnd 0) c = None \<Longrightarrow> snd (snd (get_offset_manager rnd req c g)) = []"
  by (auto simp: chosen_broker_def get_offset_manager_def split: sum.splits)

lemma chosen_broker_cluster2:
  "chosen_broker (counting 0) cluster2 = Some broker1"
  by (simp add: chosen_broker_def random_choice_def cluster2_def counting_def)

text \<open>
  C5 (bounded retry). For a cluster that knows at least one broker (the empty broker
  map is the subject of C10), every consumer group and every network behaviour in
  which all coordinator queries fail, \<open>get_offset_manager\<close> sends exactly three
  queries, all through the broker chosen at the start, sleeps between consecutive
  queries (two sleeps, of 2 and 4 seconds) and then raises the failure of the third
  query again, which the spec names \<open>CoordinatorDiscoveryFailed\<close>. The cluster is left
  as it was.
\<close>

theorem bounded_retry:
  assumes "brokers c \<noteq> []"
    and "\<forall>b n. \<exists>e. req b g n = Inl e"
  shows "\<exists>b e. chosen_broker (rnd 0) c = Some b \<and> req b g 3 = Inl e \<and>
           get_offset_manager rnd req c g =
             (Inl (CoordinatorDiscoveryFailed e), c,
              [Query b g, Sleep 2, Query b g, Sleep 4, Query b g])"
proof -
  obtain b where b: "chosen_broker (rnd 0) c = Some b"
    using chosen_broker_nonempty [OF assms(1)] by blast
  obtain e1 e2 e3 where "req b g 1 = Inl e1" "req b g 2 = Inl e2" "req b g 3 = Inl e3"
    using assms(2) by metis
  then show ?thesis
    using b by (simp add: get_offset_manager_chosen offset_manager_loop_unfold)
qed

theorem bounded_retry_witness:
  "brokers cluster2 \<noteq> [] \<and> (\<forall>b n. \<exists>e. always_timeout b ''g1'' n = Inl e) \<and>
   get_offset_manager counting always_timeout cluster2 ''g1'' =
     (Inl (CoordinatorDiscoveryFailed ''timeout''), cluster2,
      [Query broker1 ''g1'', Sleep 2, Query broker1 ''g1'', Sleep 4, Query broker1 ''g1''])"
proof -
  have h1: "brokers cluster2 \<noteq> []"
    by (simp add: cluster2_def)
  have h2: "\<forall>b n. \<exists>e. always_timeout b ''g1'' n = Inl e"
    by (simp add: always_timeout_def)
  from bounded_retry [where rnd = counting and c = cluster2 and req = always_timeout, OF h1 h2]
    chosen_broker_cluster2 h1 h2
  show ?thesis
    by (auto simp: always_timeout_def)
qed

text \<open>
  Whatever the network does, a run sends at most \<open>MAX_RETRIES\<close> queries and sleeps
  exactly between consecutive ones.
\<close>

lemma at_most_three_queries:
  "length (query_targets (snd (snd (get_offset_manager rnd req c g)))) \<le> MAX_RETRIES \<and>
   length (sleep_durations (snd (snd (get_offset_manager rnd req c g)))) =
     length (query_targets (snd (snd (get_offset_manager rnd req c g)))) - 1"
proof (cases "chosen_broker (rnd 0) c")
  case None
  then show ?thesis
    by (simp add: get_offset_manager_not_chosen)
next
  case (Some b)
  then show ?thesis
    by (simp add: get_offset_manager_chosen offset_manager_loop_unfold MAX_RETRIES_def
        split: sum.splits option.splits)
qed

text \<open>
  C6 (backoff progression). In every run of \<open>get_offset_manager\<close> the durations slept
  follow the progression of the spec from the base of 2 seconds: the first wait is 2
  and each later wait is the one before raised to its own power. When the first two
  attempts fail, the waits are 2 and \<open>2 ^ 2\<close>. The source computes the next wait as
  \<open>backoff ** 2\<close>; at most two waits are slept, and on them squaring and raising to the
  own power agree (\<open>2 ** 2 = 4\<close>). The value the variable takes after the second sleep
  is never slept.
\<close>

theorem backoff_progression:
  "self_exponentiation 2 (sleep_durations (snd (snd (get_offset_manager rnd req c g)))) \<and>
   (\<forall>b e1 e2. chosen_broker (rnd 0) c = Some b \<and> req b g 1 = Inl e1 \<and> req b g 2 = Inl e2 \<longrightarrow>
      sleep_durations (snd (snd (get_offset_manager rnd req c g))) = [2, 2 ^ 2])"
proof (cases "chosen_broker (rnd 0) c")
  case None
  then show ?thesis
    by (simp add: get_offset_manager_not_chosen)
next
  case (Some b)
  then show ?thesis
    by (simp add: get_offset_manager_chosen offset_manager_loop_unfold
        split: sum.splits option.splits)
qed

theorem backoff_progression_witness:
  "chosen_broker (counting 0) cluster2 = Some broker1 \<and>
   third_succeeds broker1 ''g1'' 1 = Inl ''timeout'' \<and>
   third_succeeds broker1 ''g1'' 2 = Inl ''timeout'' \<and>
   sleep_durations (snd (snd (get_offset_manager counting third_succeeds cluster2 ''g1''))) = [2, 4] \<and>
   self_exponentiation 2 [2, 4]"
proof -
  have t: "third_succeeds broker1 ''g1'' 1 = Inl ''timeout''"
    "third_succeeds broker1 ''g1'' 2 = Inl ''timeout''"
    by (simp_all add: third_succeeds_def)
  from backoff_progression [of counting third_succeeds cluster2 "''g1''"] chosen_broker_cluster2 t
  have "sleep_durations (snd (snd (get_offset_manager counting third_succeeds cluster2 ''g1'')))
          = [2, 2 ^ 2]"
    by blast
  with chosen_broker_cluster2 t show ?thesis by simp
qed

text \<open>
  C7 as stated (every attempt, also each retry, goes to a broker chosen afresh) fails:
  with brokers 1 and 2 known, a generator that yields 0, 1, 2 and a network on which
  every query times out, the three queries all go to broker 1, where choosing afresh
  would send the second one to broker 2.
\<close>

theorem single_selection_counterexample:
  "map Some (query_targets (snd (snd (get_offset_manager counting always_timeout cluster2 ''g1''))))
     = [Some broker1, Some broker1, Some broker1] \<and>
   reselected_targets counting cluster2 3 = [Some broker1, Some broker2, Some broker1] \<and>
   map Some (query_targets (snd (snd (get_offset_manager counting always_timeout cluster2 ''g1''))))
     \<noteq> reselected_targets counting cluster2 3"
proof -
  have q: "map Some (query_targets
             (snd (snd (get_offset_manager counting always_timeout cluster2 ''g1''))))
     = [Some broker1, Some broker1, Some broker1]"
    by (simp add: get_offset_manager_chosen [where rnd = counting, OF chosen_broker_cluster2]
        offset_manager_loop_unfold always_timeout_def)
  have r: "reselected_targets counting cluster2 3 = [Some broker1, Some broker2, Some broker1]"
    by (simp add: reselected_targets_def chosen_broker_def random_choice_def cluster2_def
        counting_def upt_rec numeral_3_eq_3)
  have "broker1 \<noteq> broker2"
    by (simp add: broker1_def broker2_def from_metadata_def Broker_def)
  with q r show ?thesis by simp
qed

text \<open>
  C7, amended (single selection). \<open>get_offset_manager\<close> chooses its broker once, before
  the first attempt, with the first number the generator yields: the call depends on
  no later number, and every query of the run, also each retry, goes to that one
  broker.
\<close>

theorem single_selection:
  "(rnd 0 = rnd' 0 \<longrightarrow> get_offset_manager rnd req c g = get_offset_manager rnd' req c g) \<and>
   (\<forall>b \<in> set (query_targets (snd (snd (get_offset_manager rnd req c g)))).
      chosen_broker (rnd 0) c = Some b)"
proof (cases "chosen_broker (rnd 0) c")
  case None
  then show ?thesis
    by (simp add: get_offset_manager_not_chosen) (simp add: get_offset_manager_def)
next
  case (Some b)
  then show ?thesis
    by (simp add: get_offset_manager_chosen offset_manager_loop_unfold
        split: sum.splits option.splits) (simp add: get_offset_manager_def)
qed

theorem single_selection_witness:
  "counting 0 = zeros 0 \<and>
   get_offset_manager counting always_timeout cluster2 ''g1'' =
     get_offset_manager zeros always_timeout cluster2 ''g1'' \<and>
   set (query_targets (snd (snd (get_offset_manager counting always_timeout cluster2 ''g1''))))
     = {broker1} \<and>
   chosen_broker (counting 0) cluster2 = Some broker1"
proof -
  have z: "counting 0 = zeros 0"
    by (simp add: counting_def zeros_def)
  have q: "set (query_targets
             (snd (snd (get_offset_manager counting always_timeout cluster2 ''g1'')))) = {broker1}"
    by (simp add: get_offset_manager_chosen [where rnd = counting, OF chosen_broker_cluster2]
        offset_manager_loop_unfold always_timeout_def)
  from single_selection [of counting zeros always_timeout cluster2 "''g1''"]
    z chosen_broker_cluster2 q
  show ?thesis by simp
qed

text \<open>
  C8 (coordinator lookup). When the query of attempt \<open>k\<close> (the first, second or third)
  is the first to succeed and names the coordinator \<open>i\<close>, \<open>get_offset_manager\<close> looks
  \<open>i\<close> up in the broker map: it returns exactly the handle stored under \<open>i\<close> if there
  is one and raises \<open>CoordinatorUnknown\<close> otherwise. In both cases it has sent \<open>k\<close>
  queries and leaves the cluster, and with it the broker map, as it was: there is no
  refresh.
\<close>

theorem coordinator_lookup:
  assumes "chosen_broker (rnd 0) c = Some b"
    and "k \<in> {1, 2, 3}"
    and "\<forall>j. 1 \<le> j \<and> j < k \<longrightarrow> (\<exists>e. req b g j = Inl e)"
    and "req b g k = Inr i"
  shows "fst (get_offset_manager rnd req c g) =
           (case map_of (brokers c) i of
              None \<Rightarrow> Inl (CoordinatorUnknown i)
            | Some coordinator \<Rightarrow> Inr coordinator) \<and>
         fst (snd (get_offset_manager rnd req c g)) = c \<and>
         length (query_targets (snd (snd (get_offset_manager rnd req c g)))) = k"
proof -
  consider "k = 1" | "k = 2" | "k = 3"
    using assms(2) by auto
  then show ?thesis
  proof cases
    case 1
    with assms(1,4) show ?thesis
      by (simp add: get_offset_manager_chosen offset_manager_loop_unfold split: option.splits)
  next
    case 2
    moreover obtain e1 where "req b g 1 = Inl e1"
      using assms(3) 2 by fastforce
    ultimately show ?thesis
      using assms(1,4)
      by (simp add: get_offset_manager_chosen offset_manager_loop_unfold split: option.splits)
  next
    case 3
    moreover obtain e1 where "req b g 1 = Inl e1"
      using assms(3) 3 by fastforce
    moreover obtain e2 where "req b g 2 = Inl e2"
      using assms(3) 3 by fastforce
    ultimately show ?thesis
      using assms(1,4)
      by (simp add: get_offset_manager_chosen offset_manager_loop_unfold split: option.splits)
  qed
qed

theorem coordinator_lookup_witness:
  "chosen_broker (counting 0) cluster2 = Some broker1 \<and> (3::nat) \<in> {1, 2, 3} \<and>
   third_succeeds broker1 ''g1'' 1 = Inl ''timeout'' \<and>
   third_succeeds broker1 ''g1'' 2 = Inl ''timeout'' \<and>
   third_succeeds broker1 ''g1'' 3 = Inr 2 \<and>
   names_99 broker1 ''g2'' 1 = Inr 99 \<and>
   fst (get_offset_manager counting third_succeeds cluster2 ''g1'') = Inr broker2 \<and>
   fst (snd (get_offset_manager counting third_succeeds cluster2 ''g1'')) = cluster2 \<and>
   fst (get_offset_manager counting names_99 cluster2 ''g2'') = Inl (CoordinatorUnknown 99) \<and>
   fst (snd (get_offset_manager counting names_99 cluster2 ''g2'')) = cluster2"
proof -
  have h2: "(3::nat) \<in> {1, 2, 3}" by simp
  have h3: "\<forall>j. 1 \<le> j \<and> j < 3 \<longrightarrow> (\<exists>e. third_succeeds broker1 ''g1'' j = Inl e)"
    by (simp add: third_succeeds_def)
  have h4: "third_succeeds broker1 ''g1'' 3 = Inr 2"
    by (simp add: third_succeeds_def)
  have h5: "(1::nat) \<in> {1, 2, 3}" by simp
  have h6: "\<forall>j. 1 \<le> j \<and> j < 1 \<longrightarrow> (\<exists>e. names_99 broker1 ''g2'' j = Inl e)"
    by simp
  have h7: "names_99 broker1 ''g2'' 1 = Inr 99"
    by (simp add: names_99_def)
  have m: "map_of (brokers cluster2) 2 = Some broker2" "map_of (brokers cluster2) 99 = None"
    by (simp_all add: cluster2_def)
  from coordinator_lookup [where rnd = counting and k = 3 and req = third_succeeds and g = "''g1''", OF chosen_broker_cluster2 h2 h3 h4]
    coordinator_lookup [where rnd = counting and k = 1 and req = names_99 and g = "''g2''", OF chosen_broker_cluster2 h5 h6 h7]
    chosen_broker_cluster2 h2 h4 h7 m
  show ?thesis by (simp add: third_succeeds_def)
qed

text \<open>
  C10 (empty broker map). With an empty broker map, \<open>random.choice\<close> is handed an empty
  sequence and raises \<open>IndexError\<close>: the call raises before any query is sent and
  without any sleep, and its error is neither \<open>CoordinatorDiscoveryFailed\<close> nor
  \<open>CoordinatorUnknown\<close>.
\<close>

theorem empty_broker_map:
  assumes "brokers c = []"
  shows "get_offset_manager rnd req c g = (Inl IndexError, c, []) \<and>
         query_targets (snd (snd (get_offset_manager rnd req c g))) = [] \<and>
         sleep_durations (snd (snd (get_offset_manager rnd req c g))) = [] \<and>
         (\<forall>e. fst (get_offset_manager rnd req c g) \<noteq> Inl (CoordinatorDiscoveryFailed e)) \<and>
         (\<forall>i. fst (get_offset_manager rnd req c g) \<noteq> Inl (CoordinatorUnknown i))"
  using assms by (simp add: get_offset_manager_def random_choice_def)

theorem empty_broker_map_witness:
  "brokers (new_cluster ''10.0.0.1:9092'' True :: nat cluster) = [] \<and>
   get_offset_manager counting always_timeout (new_cluster ''10.0.0.1:9092'' True :: nat cluster) ''g1''
     = (Inl IndexError, new_cluster ''10.0.0.1:9092'' True, [])"
proof -
  have h: "brokers (new_cluster ''10.0.0.1:9092'' True :: nat cluster) = []"
    by (simp add: new_cluster_def)
  from empty_broker_map [OF h, of counting always_timeout "''g1''"] h show ?thesis
    by simp
qed

section \<open>Properties of \<open>_get_metadata\<close>\<close>

text \<open>
  \<open>split\<close> always yields at least one piece, so the list of candidates is never
  empty and the \<open>raise\<close> after the loop is never reached.
\<close>

lemma str_split_nonempty: "str_split s sep \<noteq> []"
  by (induction s) (auto split: list.splits)

lemma get_metadata_loop_reachable:
  "bs \<noteq> [] \<Longrightarrow> get_metadata_loop rm c bs \<noteq> Inl ClusterUnreachable"
  by (cases "(rm, c, bs)" rule: get_metadata_loop.cases)
     (auto split: list.splits sum.splits)

lemma get_metadata_never_ClusterUnreachable:
  "get_metadata rm c \<noteq> Inl ClusterUnreachable"
  unfolding get_metadata_def Let_def
  by (rule get_metadata_loop_reachable) (simp add: str_split_nonempty)

text \<open>
  C9 (empty candidate list) at the input with no broker known and the empty seed list:
  \<open>''.split(',')\<close> is \<open>['']\<close>, the one candidate is the empty string, unpacking
  \<open>''.split(':')\<close> into \<open>h, p\<close> raises \<open>ValueError\<close>, and that is what \<open>_get_metadata\<close>
  raises, not the error of the \<open>raise\<close> after the loop.
\<close>

theorem get_metadata_empty_seed:
  "get_metadata rm (new_cluster [] exclude) = Inl ValueError \<and>
   get_metadata rm (new_cluster [] exclude) \<noteq> Inl ClusterUnreachable"
  by (simp add: get_metadata_def new_cluster_def)

section \<open>Properties of \<open>_update_brokers\<close>\<close>

text \<open>What the removal of the old brokers leaves.\<close>

lemma map_of_fold_delete:
  "map_of (fold AList.delete ks al) k = (if k \<in> set ks then None else map_of al k)"
  by (induction ks arbitrary: al) (simp_all add: delete_conv')

lemma set_removed_keys:
  "set (removed_keys current fresh) = fst ` set current - fst ` set fresh"
  by (auto simp: removed_keys_def)

lemma map_of_after_removal:
  "map_of (fold AList.delete (removed_keys current fresh) current) k =
     (if k \<in> fst ` set fresh then map_of current k else None)"
  by (auto simp: map_of_fold_delete set_removed_keys map_of_eq_None_iff)

lemma fold_delete_nothing:
  "fst ` set current \<subseteq> fst ` set fresh \<Longrightarrow>
     fold AList.delete (removed_keys current fresh) current = current"
proof -
  assume "fst ` set current \<subseteq> fst ` set fresh"
  then have "set (removed_keys current fresh) = {}"
    by (auto simp: set_removed_keys)
  then show ?thesis by simp
qed

lemma keys_map_of: "k \<in> fst ` set al \<longleftrightarrow> map_of al k \<noteq> None"
  by (simp add: map_of_eq_None_iff)

text \<open>
  The loop never touches an entry that is there: it only adds entries for ids of the
  snapshot, and it leaves the other fields alone.
\<close>

lemma update_brokers_loop_keeps:
  "map_of (brokers c) k = Some b \<Longrightarrow>
     map_of (brokers (snd (update_brokers_loop c ms))) k = Some b"
proof (induction ms arbitrary: c)
  case Nil
  then show ?case by simp
next
  case (Cons p ms)
  obtain i m where p: "p = (i, m)" by (cases p)
  show ?case
  proof (cases "map_of (brokers c) i")
    case None
    with Cons.prems have "k \<noteq> i" by auto
    with None Cons.prems p show ?thesis
      by (simp add: Cons.IH update_conv')
  next
    case (Some b')
    with Cons p show ?thesis by simp
  qed
qed

lemma update_brokers_loop_frame:
  "topics (snd (update_brokers_loop c ms)) = topics c \<and>
   seed_hosts (snd (update_brokers_loop c ms)) = seed_hosts c \<and>
   exclude_internal_topics (snd (update_brokers_loop c ms)) = exclude_internal_topics c \<and>
   next_obj c \<le> next_obj (snd (update_brokers_loop c ms))"
proof (induction ms arbitrary: c)
  case Nil
  then show ?case by simp
next
  case (Cons p ms)
  obtain i m where p: "p = (i, m)" by (cases p)
  let ?c1 = "c\<lparr>brokers := AList.update i (from_metadata (next_obj c) m) (brokers c),
               next_obj := Suc (next_obj c)\<rparr>"
  from Cons.IH [of ?c1] Cons.IH [of c] p show ?case
    by (auto split: option.splits)
qed

lemma update_brokers_loop_new_keys:
  "map_of (brokers (snd (update_brokers_loop c ms))) k = Some b \<Longrightarrow>
     map_of (brokers c) k = Some b \<or> k \<in> fst ` set ms"
proof (induction ms arbitrary: c)
  case Nil
  then show ?case by simp
next
  case (Cons p ms)
  obtain i m where p: "p = (i, m)" by (cases p)
  show ?case
  proof (cases "map_of (brokers c) i")
    case None
    let ?c1 = "c\<lparr>brokers := AList.update i (from_metadata (next_obj c) m) (brokers c),
                 next_obj := Suc (next_obj c)\<rparr>"
    from Cons.prems None p
    have "map_of (brokers (snd (update_brokers_loop ?c1 ms))) k = Some b" by simp
    from Cons.IH [OF this] p show ?thesis
      by (auto simp: update_conv' split: if_splits)
  next
    case (Some b')
    with Cons p show ?thesis by (auto split: if_splits)
  qed
qed

text \<open>
  Without a changed address the loop runs to its end and every id that was missing has
  a handle built from its metadata; with one it raises.
\<close>

lemma update_brokers_loop_success:
  assumes "distinct (map fst ms)"
    and "\<forall>(k, meta) \<in> set ms. \<forall>b. map_of (brokers c) k = Some b \<longrightarrow> same_address meta b"
  shows "fst (update_brokers_loop c ms) = Inr () \<and>
         (\<forall>(k, meta) \<in> set ms. map_of (brokers c) k = None \<longrightarrow>
            (\<exists>obj \<ge> next_obj c.
               map_of (brokers (snd (update_brokers_loop c ms))) k = Some (from_metadata obj meta)))"
  using assms
proof (induction ms arbitrary: c)
  case Nil
  then show ?case by simp
next
  case (Cons p ms)
  obtain i m where p: "p = (i, m)" by (cases p)
  from Cons.prems p have d: "distinct (map fst ms)" and i: "i \<notin> fst ` set ms"
    by auto
  show ?case
  proof (cases "map_of (brokers c) i")
    case None
    let ?b = "from_metadata (next_obj c) m"
    let ?c1 = "c\<lparr>brokers := AList.update i ?b (brokers c), next_obj := Suc (next_obj c)\<rparr>"
    have other: "map_of (brokers ?c1) k = map_of (brokers c) k" if "k \<in> fst ` set ms" for k
      using that i by (auto simp: update_conv')
    have "\<forall>(k, meta) \<in> set ms. \<forall>b. map_of (brokers ?c1) k = Some b \<longrightarrow> same_address meta b"
      using Cons.prems(2) p other by (fastforce simp: image_iff)
    from Cons.IH [OF d this]
    have ih: "fst (update_brokers_loop ?c1 ms) = Inr ()"
      "\<forall>(k, meta) \<in> set ms. map_of (brokers ?c1) k = None \<longrightarrow>
         (\<exists>obj \<ge> next_obj ?c1.
            map_of (brokers (snd (update_brokers_loop ?c1 ms))) k = Some (from_metadata obj meta))"
      by blast+
    have here: "map_of (brokers (snd (update_brokers_loop ?c1 ms))) i = Some ?b"
      by (rule update_brokers_loop_keeps) (simp add: update_conv')
    have step: "update_brokers_loop c (p # ms) = update_brokers_loop ?c1 ms"
      using None p by simp
    have "\<exists>obj \<ge> next_obj c.
            map_of (brokers (snd (update_brokers_loop ?c1 ms))) k = Some (from_metadata obj meta)"
      if "(k, meta) \<in> set (p # ms)" "map_of (brokers c) k = None" for k meta
    proof (cases "(k, meta) = p")
      case True
      with p here show ?thesis by auto
    next
      case False
      with that have in_ms: "(k, meta) \<in> set ms" by simp
      then have "k \<in> fst ` set ms" by force
      with that(2) other have "map_of (brokers ?c1) k = None" by simp
      with ih(2) in_ms obtain obj where "obj \<ge> next_obj ?c1"
        "map_of (brokers (snd (update_brokers_loop ?c1 ms))) k = Some (from_metadata obj meta)"
        by blast
      then show ?thesis
        by (intro exI [of _ obj]) simp
    qed
    with ih(1) step show ?thesis by auto
  next
    case (Some b)
    with Cons.prems(2) p have "same_address m b" by auto
    with Some p have step: "update_brokers_loop c (p # ms) = update_brokers_loop c ms"
      by simp
    have "\<forall>(k, meta) \<in> set ms. \<forall>b. map_of (brokers c) k = Some b \<longrightarrow> same_address meta b"
      using Cons.prems(2) by auto
    from Cons.IH [OF d this] step Some p show ?thesis
      by auto
  qed
qed

lemma update_brokers_loop_rejects:
  assumes "(k, meta) \<in> set ms"
    and "map_of (brokers c) k = Some b"
    and "\<not> same_address meta b"
  shows "\<exists>b'. fst (update_brokers_loop c ms) = Inl (TopologyChangeRejected b')"
  using assms
proof (induction ms arbitrary: c)
  case Nil
  then show ?case by simp
next
  case (Cons p ms)
  obtain i m where p: "p = (i, m)" by (cases p)
  show ?case
  proof (cases "map_of (brokers c) i")
    case None
    let ?c1 = "c\<lparr>brokers := AList.update i (from_metadata (next_obj c) m) (brokers c),
                 next_obj := Suc (next_obj c)\<rparr>"
    from None Cons.prems(2) have "k \<noteq> i" by auto
    with Cons.prems p have "(k, meta) \<in> set ms" "map_of (brokers ?c1) k = Some b"
      by (auto simp: update_conv')
    from Cons.IH [OF this Cons.prems(3)] None p show ?thesis by simp
  next
    case (Some b0)
    show ?thesis
    proof (cases "same_address m b0")
      case True
      with Cons.prems Some p have "(k, meta) \<in> set ms" by auto
      from Cons.IH [OF this Cons.prems(2,3)] Some True p show ?thesis by simp
    next
      case False
      with Some p show ?thesis by simp
    qed
  qed
qed

text \<open>
  \<open>_update_brokers\<close> on a snapshot with distinct ids in which no known id has changed
  its address: it succeeds and the broker map has exactly the ids of the snapshot.
\<close>

lemma update_brokers_exact:
  assumes "distinct (map fst ms)"
    and "\<forall>(k, meta) \<in> set ms. \<forall>b. map_of (brokers c) k = Some b \<longrightarrow> same_address meta b"
  shows "fst (update_brokers c ms) = Inr ()"
    and "fst ` set (brokers (snd (update_brokers c ms))) = fst ` set ms"
    and "\<forall>(k, meta) \<in> set ms. map_of (brokers c) k = None \<longrightarrow>
           (\<exists>obj \<ge> next_obj c.
              map_of (brokers (snd (update_brokers c ms))) k = Some (from_metadata obj meta))"
    and "\<forall>(k, meta) \<in> set ms. \<forall>b. map_of (brokers c) k = Some b \<longrightarrow>
           map_of (brokers (snd (update_brokers c ms))) k = Some b"
proof -
  let ?c1 = "c\<lparr>brokers := fold AList.delete (removed_keys (brokers c) ms) (brokers c)\<rparr>"
  let ?c' = "snd (update_brokers_loop ?c1 ms)"
  have ub: "update_brokers c ms = update_brokers_loop ?c1 ms"
    by (simp add: update_brokers_def Let_def)
  have ok: "\<forall>(k, meta) \<in> set ms. \<forall>b. map_of (brokers ?c1) k = Some b \<longrightarrow> same_address meta b"
    using assms(2) by (auto simp: map_of_after_removal split: if_splits)
  note succ = update_brokers_loop_success [OF assms(1) ok]
  show "fst (update_brokers c ms) = Inr ()"
    using succ ub by simp
  show new: "\<forall>(k, meta) \<in> set ms. map_of (brokers c) k = None \<longrightarrow>
           (\<exists>obj \<ge> next_obj c.
              map_of (brokers (snd (update_brokers c ms))) k = Some (from_metadata obj meta))"
  proof (clarify)
    fix k meta
    assume km: "(k, meta) \<in> set ms" and "map_of (brokers c) k = None"
    then have "map_of (brokers ?c1) k = None" by (simp add: map_of_after_removal)
    with succ km show "\<exists>obj \<ge> next_obj c.
              map_of (brokers (snd (update_brokers c ms))) k = Some (from_metadata obj meta)"
      unfolding ub by fastforce
  qed
  show old: "\<forall>(k, meta) \<in> set ms. \<forall>b. map_of (brokers c) k = Some b \<longrightarrow>
           map_of (brokers (snd (update_brokers c ms))) k = Some b"
  proof (clarify)
    fix k meta b
    assume km: "(k, meta) \<in> set ms" and "map_of (brokers c) k = Some b"
    then have "map_of (brokers ?c1) k = Some b" by (force simp: map_of_after_removal)
    then show "map_of (brokers (snd (update_brokers c ms))) k = Some b"
      unfolding ub by (rule update_brokers_loop_keeps)
  qed
  show "fst ` set (brokers (snd (update_brokers c ms))) = fst ` set ms"
  proof (intro equalityI subsetI)
    fix k
    assume "k \<in> fst ` set (brokers (snd (update_brokers c ms)))"
    then obtain b where "map_of (brokers ?c') k = Some b"
      unfolding ub keys_map_of by blast
    from update_brokers_loop_new_keys [OF this] show "k \<in> fst ` set ms"
      by (auto simp: map_of_after_removal split: if_splits)
  next
    fix k
    assume "k \<in> fst ` set ms"
    then obtain meta where km: "(k, meta) \<in> set ms" by auto
    show "k \<in> fst ` set (brokers (snd (update_brokers c ms)))"
    proof (cases "map_of (brokers c) k")
      case None
      with new km show ?thesis
        unfolding keys_map_of by fastforce
    next
      case (Some b)
      with old km show ?thesis
        unfolding keys_map_of by fastforce
    qed
  qed
qed

text \<open>The broker map stays a dictionary: its keys stay distinct.\<close>

lemma distinct_fold_delete:
  "distinct (map fst al) \<Longrightarrow> distinct (map fst (fold AList.delete ks al))"
  by (induction ks arbitrary: al) (simp_all add: distinct_delete)

lemma update_brokers_loop_distinct:
  "distinct (map fst (brokers c)) \<Longrightarrow>
     distinct (map fst (brokers (snd (update_brokers_loop c ms))))"
proof (induction ms arbitrary: c)
  case Nil
  then show ?case by simp
next
  case (Cons p ms)
  obtain i m where p: "p = (i, m)" by (cases p)
  let ?c1 = "c\<lparr>brokers := AList.update i (from_metadata (next_obj c) m) (brokers c),
               next_obj := Suc (next_obj c)\<rparr>"
  have "distinct (map fst (brokers ?c1))"
    using Cons.prems by (simp add: distinct_update)
  from Cons.IH [OF this] Cons.IH [OF Cons.prems] Cons.prems p show ?case
    by (simp split: option.splits)
qed

lemma update_brokers_distinct:
  "distinct (map fst (brokers c)) \<Longrightarrow>
     distinct (map fst (brokers (snd (update_brokers c ms))))"
  unfolding update_brokers_def Let_def
  by (rule update_brokers_loop_distinct) (simp add: distinct_fold_delete)

text \<open>\<open>_update_topics\<close> leaves the broker map, the seed list and the exclusion flag alone.\<close>

lemma update_topics_loop_frame:
  "brokers (update_topics_loop c ms) = brokers c \<and>
   seed_hosts (update_topics_loop c ms) = seed_hosts c \<and>
   exclude_internal_topics (update_topics_loop c ms) = exclude_internal_topics c \<and>
   next_obj c \<le> next_obj (update_topics_loop c ms)"
proof (induction ms arbitrary: c)
  case Nil
  then show ?case by simp
next
  case (Cons p ms)
  obtain n m where p: "p = (n, m)" by (cases p)
  let ?c1 = "c\<lparr>topics := AList.update n (Topic (next_obj c) m) (topics c),
               next_obj := Suc (next_obj c)\<rparr>"
  have "\<And>t. next_obj c \<le> next_obj (update_topics_loop (c\<lparr>topics := t\<rparr>) ms)"
    using Cons.IH by (metis cluster.select_convs(5) cluster.surjective cluster.update_convs(3))
  with Cons.IH [of ?c1] Cons.IH [of c] p show ?case
    by (auto simp: Cons.IH split: option.splits)
qed

lemma update_topics_frame:
  "brokers (update_topics c ms) = brokers c \<and>
   seed_hosts (update_topics c ms) = seed_hosts c \<and>
   exclude_internal_topics (update_topics c ms) = exclude_internal_topics c \<and>
   next_obj c \<le> next_obj (update_topics c ms)"
  using update_topics_loop_frame
    [of "c\<lparr>topics := fold AList.delete (removed_keys (topics c) ms) (topics c)\<rparr>" ms]
  by (simp add: update_topics_def Let_def)

text \<open>
  C1 (exact broker reconciliation). Let \<open>update()\<close> fetch the snapshot \<open>md\<close>, let the
  broker ids of \<open>md\<close> be distinct (they are the keys of a dictionary) and let no id
  already in the broker map reappear in \<open>md\<close> with a changed host or port. Then
  \<open>update()\<close> succeeds and afterwards the key set of the broker map is exactly the set
  of ids of \<open>md\<close>: every id absent from \<open>md\<close> is gone, every id new in \<open>md\<close> maps to
  a handle newly built from its metadata by \<open>Broker.from_metadata\<close>, and every id
  present in both keeps the handle it had.
\<close>

theorem exact_broker_reconciliation:
  assumes "get_metadata rm c = Inr md"
    and "distinct (map fst (md_brokers md))"
    and "\<forall>(k, meta) \<in> set (md_brokers md).
           \<forall>b. map_of (brokers c) k = Some b \<longrightarrow> same_address meta b"
  shows "fst (update rm c) = Inr () \<and>
         fst ` set (brokers (snd (update rm c))) = fst ` set (md_brokers md) \<and>
         (\<forall>k. k \<notin> fst ` set (md_brokers md) \<longrightarrow> map_of (brokers (snd (update rm c))) k = None) \<and>
         (\<forall>(k, meta) \<in> set (md_brokers md). map_of (brokers c) k = None \<longrightarrow>
            (\<exists>obj \<ge> next_obj c.
               map_of (brokers (snd (update rm c))) k = Some (from_metadata obj meta))) \<and>
         (\<forall>(k, meta) \<in> set (md_brokers md). \<forall>b. map_of (brokers c) k = Some b \<longrightarrow>
            map_of (brokers (snd (update rm c))) k = Some b)"
proof -
  note ex = update_brokers_exact [OF assms(2,3)]
  obtain c1 where ub: "update_brokers c (md_brokers md) = (Inr (), c1)"
    using ex(1) by (cases "update_brokers c (md_brokers md)") auto
  have u: "update rm c = (Inr (), update_topics c1 (md_topics md))"
    using assms(1) ub by (simp add: update_def)
  have b: "brokers (snd (update rm c)) = brokers (snd (update_brokers c (md_brokers md)))"
    using u ub by (simp add: update_topics_frame)
  have "\<forall>k. k \<notin> fst ` set (md_brokers md) \<longrightarrow> map_of (brokers (snd (update rm c))) k = None"
    using ex(2) b by (metis keys_map_of)
  with ex u show ?thesis
    unfolding b by simp
qed

text \<open>
  C3 (fatal address change). If an id \<open>k\<close> that is in the broker map with the handle
  \<open>b\<close> reappears in the fresh snapshot with a host or port that differs from that of
  \<open>b\<close>, then \<open>_update_brokers\<close> raises the host/port-change exception, which the spec
  names \<open>TopologyChangeRejected\<close>, and the map still holds \<open>b\<close> under \<open>k\<close>: the old
  handle is neither replaced nor evicted.
\<close>

theorem address_change_rejected:
  assumes "(k, meta) \<in> set ms"
    and "map_of (brokers c) k = Some b"
    and "\<not> same_address meta b"
  shows "(\<exists>b'. fst (update_brokers c ms) = Inl (TopologyChangeRejected b')) \<and>
         map_of (brokers (snd (update_brokers c ms))) k = Some b"
proof -
  let ?c1 = "c\<lparr>brokers := fold AList.delete (removed_keys (brokers c) ms) (brokers c)\<rparr>"
  have ub: "update_brokers c ms = update_brokers_loop ?c1 ms"
    by (simp add: update_brokers_def Let_def)
  have "k \<in> fst ` set ms"
    using assms(1) by force
  then have c1: "map_of (brokers ?c1) k = Some b"
    using assms(2) by (simp add: map_of_after_removal)
  from update_brokers_loop_rejects [OF assms(1) c1 assms(3)]
    update_brokers_loop_keeps [OF c1, of ms]
  show ?thesis
    unfolding ub by simp
qed


theorem exact_broker_reconciliation_witness:
  "get_metadata answer2 cluster1 = Inr snapshot2 \<and>
   md_brokers snapshot2 = [(1, meta1), (2, meta2)] \<and>
   distinct (map fst (md_brokers snapshot2)) \<and>
   map_of (brokers cluster1) 1 = Some broker1 \<and> same_address meta1 broker1 \<and>
   map_of (brokers cluster1) 2 = None \<and>
   fst (update answer2 cluster1) = Inr () \<and>
   fst ` set (brokers (snd (update answer2 cluster1))) = {1, 2} \<and>
   map_of (brokers (snd (update answer2 cluster1))) 1 = Some broker1 \<and>
   (\<exists>obj. next_obj cluster1 \<le> obj \<and>
      map_of (brokers (snd (update answer2 cluster1))) 2 = Some (from_metadata obj meta2)) \<and>
   map_of (brokers (snd (update answer2 cluster1))) 3 = None"
proof -
  have h1: "get_metadata answer2 cluster1 = Inr snapshot2"
    by (simp add: get_metadata_def cluster1_def answer2_def)
  have h2: "distinct (map fst (md_brokers snapshot2))"
    by (simp add: snapshot2_def)
  have h3: "\<forall>(k, meta) \<in> set (md_brokers snapshot2).
      \<forall>b. map_of (brokers cluster1) k = Some b \<longrightarrow> same_address meta b"
    by (simp add: snapshot2_def cluster1_def same_address_def broker1_def from_metadata_def
        Broker_def meta1_def)
  have m: "map_of (brokers cluster1) 1 = Some broker1" "map_of (brokers cluster1) 2 = None"
    "md_brokers snapshot2 = [(1, meta1), (2, meta2)]"
    by (simp_all add: cluster1_def snapshot2_def)
  have a: "same_address meta1 broker1"
    by (simp add: same_address_def broker1_def from_metadata_def Broker_def)
  from exact_broker_reconciliation [OF h1 h2 h3] h1 h2 m a show ?thesis
    by simp
qed

theorem address_change_rejected_witness:
  "(1, meta1_moved) \<in> set [(1, meta1_moved), (2, meta2)] \<and>
   map_of (brokers cluster2) 1 = Some broker1 \<and>
   \<not> same_address meta1_moved broker1 \<and>
   fst (update_brokers cluster2 [(1, meta1_moved), (2, meta2)])
     = Inl (TopologyChangeRejected broker1) \<and>
   map_of (brokers (snd (update_brokers cluster2 [(1, meta1_moved), (2, meta2)]))) 1
     = Some broker1"
proof -
  have h1: "(1, meta1_moved) \<in> set [(1, meta1_moved), (2, meta2)]"
    by simp
  have h2: "map_of (brokers cluster2) 1 = Some broker1"
    by (simp add: cluster2_def)
  have h3: "\<not> same_address meta1_moved broker1"
    by (simp add: same_address_def meta1_moved_def broker1_def from_metadata_def Broker_def
        meta1_def)
  have e: "fst (update_brokers cluster2 [(1, meta1_moved), (2, meta2)])
     = Inl (TopologyChangeRejected broker1)"
    by code_simp
  from address_change_rejected [OF h1 h2 h3] h1 h2 h3 e show ?thesis
    by simp
qed

section \<open>Properties of \<open>_update_topics\<close> and \<open>update\<close>\<close>

text \<open>
  A name enters the topic map only through the loop, and only when it is in the
  snapshot and \<open>_should_exclude_topic\<close> lets it pass.
\<close>

lemma should_exclude_topic_flag:
  "exclude_internal_topics c' = exclude_internal_topics c \<Longrightarrow>
     should_exclude_topic c' n = should_exclude_topic c n"
  by (simp add: should_exclude_topic_def)

lemma update_topics_loop_keys:
  "map_of (topics (update_topics_loop c ms)) n = Some t \<Longrightarrow>
     map_of (topics c) n \<noteq> None \<or> (n \<in> fst ` set ms \<and> \<not> should_exclude_topic c n)"
proof (induction ms arbitrary: c)
  case Nil
  then show ?case by simp
next
  case (Cons p ms)
  obtain n' m where p: "p = (n', m)" by (cases p)
  show ?case
  proof (cases "should_exclude_topic c n'")
    case True
    with Cons p show ?thesis by auto
  next
    case False
    let ?c1 = "c\<lparr>topics := AList.update n' (Topic (next_obj c) m) (topics c),
                 next_obj := Suc (next_obj c)\<rparr>"
    have ex1: "should_exclude_topic ?c1 n = should_exclude_topic c n"
      by (simp add: should_exclude_topic_def)
    have ex2: "should_exclude_topic (c\<lparr>topics := ts\<rparr>) n = should_exclude_topic c n" for ts
      by (simp add: should_exclude_topic_def)
    show ?thesis
    proof (cases "map_of (topics c) n'")
      case None
      with Cons.prems False p
      have "map_of (topics (update_topics_loop ?c1 ms)) n = Some t" by simp
      from Cons.IH [OF this] False p show ?thesis
        by (auto simp: update_conv' ex1 split: if_splits)
    next
      case (Some t0)
      let ?c2 = "c\<lparr>topics := AList.update n' (topic_update t0 m) (topics c)\<rparr>"
      from Cons.prems False p Some
      have "map_of (topics (update_topics_loop ?c2 ms)) n = Some t" by simp
      from Cons.IH [OF this] False p Some show ?thesis
        by (auto simp: update_conv' ex2 split: if_splits)
    qed
  qed
qed

lemma update_topics_keys:
  assumes "n \<in> fst ` set (topics (update_topics c ms))"
  shows "n \<in> fst ` set ms \<and> (n \<in> fst ` set (topics c) \<or> \<not> should_exclude_topic c n)"
proof -
  let ?c1 = "c\<lparr>topics := fold AList.delete (removed_keys (topics c) ms) (topics c)\<rparr>"
  have ex: "should_exclude_topic ?c1 n = should_exclude_topic c n"
    by (simp add: should_exclude_topic_def)
  from assms obtain t where "map_of (topics (update_topics_loop ?c1 ms)) n = Some t"
    unfolding keys_map_of update_topics_def Let_def by blast
  from update_topics_loop_keys [OF this] show ?thesis
    by (auto simp: ex map_of_after_removal keys_map_of split: if_splits)
qed

lemma update_brokers_frame:
  "topics (snd (update_brokers c ms)) = topics c \<and>
   seed_hosts (snd (update_brokers c ms)) = seed_hosts c \<and>
   exclude_internal_topics (snd (update_brokers c ms)) = exclude_internal_topics c \<and>
   next_obj c \<le> next_obj (snd (update_brokers c ms))"
  using update_brokers_loop_frame
    [of "c\<lparr>brokers := fold AList.delete (removed_keys (brokers c) ms) (brokers c)\<rparr>" ms]
  by (simp add: update_brokers_def Let_def)

text \<open>The three ways through \<open>update\<close>.\<close>

lemma update_cases:
  obtains (fetch_failed) e where "get_metadata rm c = Inl e" "update rm c = (Inl e, c)"
  | (brokers_failed) md e where "get_metadata rm c = Inr md"
      "fst (update_brokers c (md_brokers md)) = Inl e"
      "update rm c = (Inl e, snd (update_brokers c (md_brokers md)))"
  | (refreshed) md where "get_metadata rm c = Inr md"
      "fst (update_brokers c (md_brokers md)) = Inr ()"
      "update rm c =
         (Inr (), update_topics (snd (update_brokers c (md_brokers md))) (md_topics md))"
proof (cases "get_metadata rm c")
  case (Inl e)
  then show ?thesis
    using fetch_failed by (simp add: update_def)
next
  case (Inr md)
  obtain r c1 where ub: "update_brokers c (md_brokers md) = (r, c1)"
    by (cases "update_brokers c (md_brokers md)")
  show ?thesis
  proof (cases r)
    case (Inl e)
    with Inr ub brokers_failed [of md e] show ?thesis
      by (simp add: update_def)
  next
    case (Inr u)
    with \<open>get_metadata rm c = Inr md\<close> ub refreshed [of md] show ?thesis
      by (simp add: update_def)
  qed
qed

text \<open>
  With exclusion on, a topic map without reserved names stays so through a call of
  \<open>update\<close>, however the call ends, and so through any sequence of calls.
\<close>

lemma update_preserves_exclusion:
  assumes "exclude_internal_topics c"
    and "\<forall>n \<in> fst ` set (topics c). \<not> startswith n ''__''"
  shows "exclude_internal_topics (snd (update rm c)) \<and>
         (\<forall>n \<in> fst ` set (topics (snd (update rm c))). \<not> startswith n ''__'')"
proof (cases rule: update_cases [of rm c])
  case (fetch_failed e)
  with assms show ?thesis by simp
next
  case (brokers_failed md e)
  with assms show ?thesis by (simp add: update_brokers_frame)
next
  case (refreshed md)
  let ?cb = "snd (update_brokers c (md_brokers md))"
  have flag: "exclude_internal_topics ?cb" and tops: "topics ?cb = topics c"
    using assms(1) by (simp_all add: update_brokers_frame)
  have "\<not> startswith n ''__''" if "n \<in> fst ` set (topics (update_topics ?cb (md_topics md)))" for n
    using update_topics_keys [OF that] assms(2) flag tops
    by (auto simp: should_exclude_topic_def)
  with refreshed flag show ?thesis
    by (simp add: update_topics_frame)
qed

lemma run_updates_preserves_exclusion:
  assumes "exclude_internal_topics c"
    and "\<forall>n \<in> fst ` set (topics c). \<not> startswith n ''__''"
  shows "\<forall>n \<in> fst ` set (topics (run_updates c rms)). \<not> startswith n ''__''"
  using assms
proof (induction rms arbitrary: c)
  case Nil
  then show ?case by simp
next
  case (Cons rm rms)
  from update_preserves_exclusion [OF Cons.prems, of rm]
  have "exclude_internal_topics (snd (update rm c))"
    and "\<forall>n \<in> fst ` set (topics (snd (update rm c))). \<not> startswith n ''__''"
    by blast+
  from Cons.IH [OF this] show ?case by simp
qed

text \<open>
  What the loop does to single names: a name that is not in the snapshot or is excluded
  keeps its entry; a name of the snapshot that is not excluded ends up with a handle
  newly built from its metadata if it was missing and with its old handle, updated,
  if it was there.
\<close>

lemma update_topics_loop_other:
  "n \<notin> fst ` set ms \<or> should_exclude_topic c n \<Longrightarrow>
     map_of (topics (update_topics_loop c ms)) n = map_of (topics c) n"
proof (induction ms arbitrary: c)
  case Nil
  then show ?case by simp
next
  case (Cons p ms)
  obtain n' m where p: "p = (n', m)" by (cases p)
  have differ: "n' \<noteq> n" if "\<not> should_exclude_topic c n'"
    using that Cons.prems p by auto
  have ex: "should_exclude_topic (c\<lparr>topics := ts, next_obj := k\<rparr>) n = should_exclude_topic c n"
    "should_exclude_topic (c\<lparr>topics := ts\<rparr>) n = should_exclude_topic c n" for ts k
    by (simp_all add: should_exclude_topic_def)
  have rest: "n \<notin> fst ` set ms \<or> should_exclude_topic c n"
    using Cons.prems by auto
  show ?case
  proof (cases "should_exclude_topic c n'")
    case True
    with Cons.IH [OF rest] p show ?thesis by simp
  next
    case False
    show ?thesis
    proof (cases "map_of (topics c) n'")
      case None
      let ?c1 = "c\<lparr>topics := AList.update n' (Topic (next_obj c) m) (topics c),
                   next_obj := Suc (next_obj c)\<rparr>"
      have "map_of (topics (update_topics_loop ?c1 ms)) n = map_of (topics ?c1) n"
        using rest by (intro Cons.IH) (simp add: ex)
      with None False p differ show ?thesis
        by (simp add: update_conv')
    next
      case (Some t0)
      let ?c2 = "c\<lparr>topics := AList.update n' (topic_update t0 m) (topics c)\<rparr>"
      have "map_of (topics (update_topics_loop ?c2 ms)) n = map_of (topics ?c2) n"
        using rest by (intro Cons.IH) (simp add: ex)
      with Some False p differ show ?thesis
        by (simp add: update_conv')
    qed
  qed
qed

lemma update_topics_loop_entry:
  assumes "distinct (map fst ms)"
    and "(n, m) \<in> set ms"
    and "\<not> should_exclude_topic c n"
  shows "\<exists>obj \<ge> next_obj c.
           map_of (topics (update_topics_loop c ms)) n =
             Some (case map_of (topics c) n of
                     None \<Rightarrow> Topic obj m
                   | Some t \<Rightarrow> topic_update t m)"
  using assms
proof (induction ms arbitrary: c)
  case Nil
  then show ?case by simp
next
  case (Cons p ms)
  obtain n' m' where p: "p = (n', m')" by (cases p)
  from Cons.prems p have d: "distinct (map fst ms)" and fresh: "n' \<notin> fst ` set ms"
    by auto
  have ex: "should_exclude_topic (c\<lparr>topics := ts, next_obj := k\<rparr>) x = should_exclude_topic c x"
    "should_exclude_topic (c\<lparr>topics := ts\<rparr>) x = should_exclude_topic c x" for ts k x
    by (simp_all add: should_exclude_topic_def)
  let ?c1 = "c\<lparr>topics := AList.update n' (Topic (next_obj c) m') (topics c),
               next_obj := Suc (next_obj c)\<rparr>"
  show ?case
  proof (cases "(n, m) = p")
    case True
    with p have eq: "n' = n" "m' = m" by auto
    have after: "map_of (topics (update_topics_loop c' ms)) n = map_of (topics c') n" for c'
      using fresh eq by (intro update_topics_loop_other) simp
    show ?thesis
    proof (cases "map_of (topics c) n")
      case None
      with Cons.prems(3) p eq show ?thesis
        by (intro exI [of _ "next_obj c"]) (simp add: after update_conv')
    next
      case (Some t0)
      with Cons.prems(3) p eq show ?thesis
        by (intro exI [of _ "next_obj c"]) (simp add: after update_conv')
    qed
  next
    case False
    with Cons.prems(2) have in_ms: "(n, m) \<in> set ms" by simp
    then have "n \<in> fst ` set ms" by force
    with fresh have ne: "n' \<noteq> n" by auto
    show ?thesis
    proof (cases "should_exclude_topic c n'")
      case True
      with Cons.IH [OF d in_ms Cons.prems(3)] p show ?thesis by simp
    next
      case notex: False
      show ?thesis
      proof (cases "map_of (topics c) n'")
        case None
        have "\<not> should_exclude_topic ?c1 n"
          using Cons.prems(3) by (simp add: ex)
        from Cons.IH [OF d in_ms this] obtain obj where
          "obj \<ge> next_obj ?c1"
          "map_of (topics (update_topics_loop ?c1 ms)) n =
             Some (case map_of (topics ?c1) n of None \<Rightarrow> Topic obj m | Some t \<Rightarrow> topic_update t m)"
          by blast
        with None notex p ne show ?thesis
          by (intro exI [of _ obj]) (simp add: update_conv')
      next
        case (Some t0)
        let ?c2 = "c\<lparr>topics := AList.update n' (topic_update t0 m') (topics c)\<rparr>"
        have "\<not> should_exclude_topic ?c2 n"
          using Cons.prems(3) by (simp add: ex)
        from Cons.IH [OF d in_ms this] obtain obj where
          "obj \<ge> next_obj ?c2"
          "map_of (topics (update_topics_loop ?c2 ms)) n =
             Some (case map_of (topics ?c2) n of None \<Rightarrow> Topic obj m | Some t \<Rightarrow> topic_update t m)"
          by blast
        with Some notex p ne show ?thesis
          by (intro exI [of _ obj]) (simp add: update_conv')
      qed
    qed
  qed
qed

lemma update_topics_entry:
  assumes "distinct (map fst ms)"
    and "(n, m) \<in> set ms"
    and "\<not> should_exclude_topic c n"
  shows "\<exists>obj \<ge> next_obj c.
           map_of (topics (update_topics c ms)) n =
             Some (case map_of (topics c) n of
                     None \<Rightarrow> Topic obj m
                   | Some t \<Rightarrow> topic_update t m)"
proof -
  let ?c1 = "c\<lparr>topics := fold AList.delete (removed_keys (topics c) ms) (topics c)\<rparr>"
  have "\<not> should_exclude_topic ?c1 n"
    using assms(3) by (simp add: should_exclude_topic_def)
  from update_topics_loop_entry [OF assms(1,2) this]
  obtain obj where "obj \<ge> next_obj ?c1"
    "map_of (topics (update_topics_loop ?c1 ms)) n =
       Some (case map_of (topics ?c1) n of None \<Rightarrow> Topic obj m | Some t \<Rightarrow> topic_update t m)"
    by blast
  moreover have "n \<in> fst ` set ms"
    using assms(2) by force
  ultimately show ?thesis
    by (intro exI [of _ obj]) (simp add: update_topics_def Let_def map_of_after_removal)
qed

text \<open>
  C2 (internal-topic exclusion). With exclusion enabled, start from the cluster as
  \<open>__init__\<close> sets it up and run any sequence of \<open>update()\<close> calls, the first being
  the one of the constructor, against any network behaviour and so any snapshots:
  the topic map never holds a name that starts with \<open>__\<close>. With exclusion disabled,
  every name \<open>n\<close> of a snapshot with distinct names, reserved prefix or not, is treated
  alike by \<open>_update_topics\<close>: afterwards the map holds under \<open>n\<close> a handle newly built
  from the metadata if \<open>n\<close> was missing, and the old handle updated with the metadata
  if \<open>n\<close> was there.
\<close>

theorem internal_topic_exclusion:
  "(\<forall>n \<in> fst ` set (topics (run_updates (new_cluster hosts True) rms)). \<not> startswith n ''__'') \<and>
   (\<not> exclude_internal_topics c \<and> distinct (map fst ms) \<and> (n, m) \<in> set ms \<longrightarrow>
      (\<exists>obj \<ge> next_obj c.
         map_of (topics (update_topics c ms)) n =
           Some (case map_of (topics c) n of
                   None \<Rightarrow> Topic obj m
                 | Some t \<Rightarrow> topic_update t m)))"
proof
  show "\<forall>n \<in> fst ` set (topics (run_updates (new_cluster hosts True) rms)). \<not> startswith n ''__''"
    by (rule run_updates_preserves_exclusion) (simp_all add: new_cluster_def)
next
  show "\<not> exclude_internal_topics c \<and> distinct (map fst ms) \<and> (n, m) \<in> set ms \<longrightarrow>
      (\<exists>obj \<ge> next_obj c.
         map_of (topics (update_topics c ms)) n =
           Some (case map_of (topics c) n of
                   None \<Rightarrow> Topic obj m
                 | Some t \<Rightarrow> topic_update t m))"
  proof (intro impI, elim conjE)
    assume "\<not> exclude_internal_topics c" and d: "distinct (map fst ms)" and i: "(n, m) \<in> set ms"
    then have "\<not> should_exclude_topic c n"
      by (simp add: should_exclude_topic_def)
    from update_topics_entry [OF d i this] show "\<exists>obj \<ge> next_obj c.
         map_of (topics (update_topics c ms)) n =
           Some (case map_of (topics c) n of
                   None \<Rightarrow> Topic obj m
                 | Some t \<Rightarrow> topic_update t m)" .
  qed
qed

theorem internal_topic_exclusion_witness:
  "''orders'' \<in> fst ` set (topics (run_updates (new_cluster ''10.0.0.1:9092'' True) [answer1, answer2])) \<and>
   \<not> startswith ''orders'' ''__'' \<and>
   startswith ''__consumer_offsets'' ''__'' \<and>
   ''__consumer_offsets'' \<notin>
     fst ` set (topics (run_updates (new_cluster ''10.0.0.1:9092'' True) [answer1, answer2])) \<and>
   \<not> exclude_internal_topics (cluster2\<lparr>exclude_internal_topics := False\<rparr>) \<and>
   distinct (map fst (md_topics snapshot2)) \<and>
   (''__consumer_offsets'', 12) \<in> set (md_topics snapshot2) \<and>
   map_of (topics (update_topics (cluster2\<lparr>exclude_internal_topics := False\<rparr>) (md_topics snapshot2)))
     ''__consumer_offsets'' = Some (Topic 3 12)"
proof -
  have r: "run_updates (new_cluster ''10.0.0.1:9092'' True) [answer1, answer2] = cluster2"
    by code_simp
  have k: "''orders'' \<in> fst ` set (topics cluster2)"
    by (simp add: cluster2_def)
  have s: "\<not> startswith ''orders'' ''__''" "startswith ''__consumer_offsets'' ''__''"
    by (simp_all add: startswith_def)
  have h: "\<not> exclude_internal_topics (cluster2\<lparr>exclude_internal_topics := False\<rparr>)"
    "distinct (map fst (md_topics snapshot2))"
    "(''__consumer_offsets'', 12) \<in> set (md_topics snapshot2)"
    by (simp_all add: snapshot2_def)
  have e: "map_of (topics (update_topics (cluster2\<lparr>exclude_internal_topics := False\<rparr>)
             (md_topics snapshot2))) ''__consumer_offsets'' = Some (Topic 3 12)"
    by code_simp
  from internal_topic_exclusion
    [of "''10.0.0.1:9092''" "[answer1, answer2]" "cluster2\<lparr>exclude_internal_topics := False\<rparr>"
      "md_topics snapshot2" "''__consumer_offsets''" 12]
  have "''__consumer_offsets'' \<notin>
     fst ` set (topics (run_updates (new_cluster ''10.0.0.1:9092'' True) [answer1, answer2]))"
    using s(2) by blast
  with r k s h e show ?thesis by simp
qed

section \<open>Refreshing twice\<close>

text \<open>
  After a run of the broker loop that did not raise, every id of the snapshot has a
  handle with the address of its metadata; on such a map the loop changes nothing,
  and no key is left to remove.
\<close>

lemma same_address_from_metadata: "same_address meta (from_metadata obj meta)"
  by (simp add: same_address_def from_metadata_def Broker_def)

lemma update_brokers_loop_settled:
  "fst (update_brokers_loop c ms) = Inr () \<Longrightarrow>
     \<forall>(k, meta) \<in> set ms.
       \<exists>b. map_of (brokers (snd (update_brokers_loop c ms))) k = Some b \<and> same_address meta b"
proof (induction ms arbitrary: c)
  case Nil
  then show ?case by simp
next
  case (Cons p ms)
  obtain i m where p: "p = (i, m)" by (cases p)
  show ?case
  proof (cases "map_of (brokers c) i")
    case None
    let ?b = "from_metadata (next_obj c) m"
    let ?c1 = "c\<lparr>brokers := AList.update i ?b (brokers c), next_obj := Suc (next_obj c)\<rparr>"
    have step: "update_brokers_loop c (p # ms) = update_brokers_loop ?c1 ms"
      using None p by simp
    have "map_of (brokers (snd (update_brokers_loop ?c1 ms))) i = Some ?b"
      by (rule update_brokers_loop_keeps) (simp add: update_conv')
    moreover from Cons.prems step have "fst (update_brokers_loop ?c1 ms) = Inr ()"
      by simp
    note Cons.IH [OF this]
    ultimately show ?thesis
      unfolding step using p by (auto simp: same_address_from_metadata)
  next
    case (Some b)
    show ?thesis
    proof (cases "same_address m b")
      case True
      with Some p have step: "update_brokers_loop c (p # ms) = update_brokers_loop c ms"
        by simp
      have "map_of (brokers (snd (update_brokers_loop c ms))) i = Some b"
        using Some by (rule update_brokers_loop_keeps)
      moreover from Cons.prems step have "fst (update_brokers_loop c ms) = Inr ()"
        by simp
      note Cons.IH [OF this]
      ultimately show ?thesis
        unfolding step using p True by auto
    next
      case False
      with Some p Cons.prems show ?thesis by simp
    qed
  qed
qed

lemma update_brokers_loop_fixed:
  "\<forall>(k, meta) \<in> set ms. \<exists>b. map_of (brokers c) k = Some b \<and> same_address meta b \<Longrightarrow>
     update_brokers_loop c ms = (Inr (), c)"
  by (induction ms arbitrary: c) auto

lemma update_brokers_again:
  assumes "fst (update_brokers c ms) = Inr ()"
    and "brokers c' = brokers (snd (update_brokers c ms))"
  shows "update_brokers c' ms = (Inr (), c')"
proof -
  let ?c1 = "c\<lparr>brokers := fold AList.delete (removed_keys (brokers c) ms) (brokers c)\<rparr>"
  have ub: "update_brokers c ms = update_brokers_loop ?c1 ms"
    by (simp add: update_brokers_def Let_def)
  have settled: "\<forall>(k, meta) \<in> set ms. \<exists>b. map_of (brokers c') k = Some b \<and> same_address meta b"
    using update_brokers_loop_settled [of ?c1 ms] assms by (simp add: ub)
  have "fst ` set (brokers c') \<subseteq> fst ` set ms"
  proof
    fix k
    assume "k \<in> fst ` set (brokers c')"
    then obtain b where "map_of (brokers (snd (update_brokers_loop ?c1 ms))) k = Some b"
      unfolding keys_map_of assms(2) ub by blast
    from update_brokers_loop_new_keys [OF this] show "k \<in> fst ` set ms"
      by (auto simp: map_of_after_removal split: if_splits)
  qed
  then have "fold AList.delete (removed_keys (brokers c') ms) (brokers c') = brokers c'"
    by (rule fold_delete_nothing)
  then show ?thesis
    using update_brokers_loop_fixed [OF settled] by (simp add: update_brokers_def Let_def)
qed

text \<open>
  After the topic loop every name of the snapshot that is not excluded is in the map,
  and on such a map the loop only calls \<open>update\<close> on the handles that are there: it
  builds no object and moves no entry.
\<close>

lemma update_topics_loop_present:
  "map_of (topics c) n \<noteq> None \<or> (n \<in> fst ` set ms \<and> \<not> should_exclude_topic c n) \<Longrightarrow>
     map_of (topics (update_topics_loop c ms)) n \<noteq> None"
proof (induction ms arbitrary: c)
  case Nil
  then show ?case by simp
next
  case (Cons p ms)
  obtain n' m where p: "p = (n', m)" by (cases p)
  have ex: "should_exclude_topic (c\<lparr>topics := ts, next_obj := k\<rparr>) n = should_exclude_topic c n"
    "should_exclude_topic (c\<lparr>topics := ts\<rparr>) n = should_exclude_topic c n" for ts k
    by (simp_all add: should_exclude_topic_def)
  show ?case
  proof (cases "should_exclude_topic c n'")
    case True
    with Cons.prems p have "map_of (topics c) n \<noteq> None \<or>
        (n \<in> fst ` set ms \<and> \<not> should_exclude_topic c n)"
      by auto
    from Cons.IH [OF this] True p show ?thesis by simp
  next
    case False
    show ?thesis
    proof (cases "map_of (topics c) n'")
      case None
      let ?c1 = "c\<lparr>topics := AList.update n' (Topic (next_obj c) m) (topics c),
                   next_obj := Suc (next_obj c)\<rparr>"
      from Cons.prems p have "map_of (topics ?c1) n \<noteq> None \<or>
          (n \<in> fst ` set ms \<and> \<not> should_exclude_topic ?c1 n)"
        by (auto simp: update_conv' ex)
      from Cons.IH [OF this] None False p show ?thesis by simp
    next
      case (Some t0)
      let ?c2 = "c\<lparr>topics := AList.update n' (topic_update t0 m) (topics c)\<rparr>"
      from Cons.prems p have "map_of (topics ?c2) n \<noteq> None \<or>
          (n \<in> fst ` set ms \<and> \<not> should_exclude_topic ?c2 n)"
        by (auto simp: update_conv' ex)
      from Cons.IH [OF this] Some False p show ?thesis by simp
    qed
  qed
qed

lemma objects_after_topic_update:
  "map_of al k = Some t \<Longrightarrow>
     map (\<lambda>(name, t). (name, topic_obj t)) (AList.update k (topic_update t m) al) =
     map (\<lambda>(name, t). (name, topic_obj t)) al"
  by (induction al) (auto simp: topic_update_def)

lemma update_topics_loop_same_objects:
  "\<forall>n \<in> fst ` set ms. \<not> should_exclude_topic c n \<longrightarrow> map_of (topics c) n \<noteq> None \<Longrightarrow>
     topic_objs (update_topics_loop c ms) = topic_objs c \<and>
     next_obj (update_topics_loop c ms) = next_obj c"
proof (induction ms arbitrary: c)
  case Nil
  then show ?case by simp
next
  case (Cons p ms)
  obtain n' m where p: "p = (n', m)" by (cases p)
  have ex: "should_exclude_topic (c\<lparr>topics := ts\<rparr>) x = should_exclude_topic c x" for ts x
    by (simp add: should_exclude_topic_def)
  show ?case
  proof (cases "should_exclude_topic c n'")
    case True
    with Cons p show ?thesis by simp
  next
    case False
    with Cons.prems p obtain t0 where t0: "map_of (topics c) n' = Some t0"
      by auto
    let ?c2 = "c\<lparr>topics := AList.update n' (topic_update t0 m) (topics c)\<rparr>"
    have "\<forall>n \<in> fst ` set ms. \<not> should_exclude_topic ?c2 n \<longrightarrow> map_of (topics ?c2) n \<noteq> None"
      using Cons.prems by (auto simp: ex update_conv')
    from Cons.IH [OF this] have "topic_objs (update_topics_loop ?c2 ms) = topic_objs ?c2"
      "next_obj (update_topics_loop ?c2 ms) = next_obj c"
      by simp_all
    moreover have "topic_objs ?c2 = topic_objs c"
      using t0 by (simp add: topic_objs_def objects_after_topic_update)
    ultimately show ?thesis
      using False t0 p by simp
  qed
qed

lemma update_topics_loop_fixed:
  "\<forall>(n, m) \<in> set ms. \<not> should_exclude_topic c n \<longrightarrow>
      (\<exists>t. map_of (topics c) n = Some t \<and> topic_meta t = m) \<Longrightarrow>
     update_topics_loop c ms = c"
proof (induction ms arbitrary: c)
  case Nil
  then show ?case by simp
next
  case (Cons p ms)
  obtain n' m where p: "p = (n', m)" by (cases p)
  have rest: "\<forall>(n, m) \<in> set ms. \<not> should_exclude_topic c n \<longrightarrow>
      (\<exists>t. map_of (topics c) n = Some t \<and> topic_meta t = m)"
    using Cons.prems by simp
  show ?case
  proof (cases "should_exclude_topic c n'")
    case True
    with Cons.IH [OF rest] p show ?thesis by simp
  next
    case False
    with Cons.prems p obtain t0 where t0: "map_of (topics c) n' = Some t0" "topic_meta t0 = m"
      by auto
    then have "topic_update t0 m = t0"
      by (simp add: topic_update_def)
    with t0 have "AList.update n' (topic_update t0 m) (topics c) = topics c"
      by (simp add: update_triv)
    with Cons.IH [OF rest] False t0 p show ?thesis by simp
  qed
qed

lemma update_topics_again:
  assumes "topics c' = topics (update_topics c ms)"
    and "exclude_internal_topics c' = exclude_internal_topics c"
  shows "topic_objs (update_topics c' ms) = topic_objs c'"
    and "next_obj (update_topics c' ms) = next_obj c'"
    and "distinct (map fst ms) \<Longrightarrow> update_topics c' ms = c'"
proof -
  let ?c1 = "c\<lparr>topics := fold AList.delete (removed_keys (topics c) ms) (topics c)\<rparr>"
  have ut: "update_topics c ms = update_topics_loop ?c1 ms"
    by (simp add: update_topics_def Let_def)
  have ex: "should_exclude_topic c' n = should_exclude_topic c n"
    "should_exclude_topic ?c1 n = should_exclude_topic c n" for n
    using assms(2) by (simp_all add: should_exclude_topic_def)
  have "fst ` set (topics c') \<subseteq> fst ` set ms"
    using update_topics_keys [of _ c ms] assms(1) by auto
  then have "fold AList.delete (removed_keys (topics c') ms) (topics c') = topics c'"
    by (rule fold_delete_nothing)
  then have again: "update_topics c' ms = update_topics_loop c' ms"
    by (simp add: update_topics_def Let_def)
  have "\<forall>n \<in> fst ` set ms. \<not> should_exclude_topic c' n \<longrightarrow> map_of (topics c') n \<noteq> None"
    unfolding assms(1) ut using update_topics_loop_present [of ?c1 _ ms] by (simp add: ex)
  from update_topics_loop_same_objects [OF this]
  show "topic_objs (update_topics c' ms) = topic_objs c'"
    and "next_obj (update_topics c' ms) = next_obj c'"
    by (simp_all add: again)
  show "update_topics c' ms = c'" if d: "distinct (map fst ms)"
  proof -
    have "\<exists>t. map_of (topics c') n = Some t \<and> topic_meta t = m"
      if "(n, m) \<in> set ms" "\<not> should_exclude_topic c' n" for n m
    proof -
      from that have "\<not> should_exclude_topic c n" by (simp add: ex)
      from update_topics_entry [OF d that(1) this] show ?thesis
        unfolding assms(1) by (auto simp: Topic_def topic_update_def split: option.splits)
    qed
    then have "\<forall>(n, m) \<in> set ms. \<not> should_exclude_topic c' n \<longrightarrow>
        (\<exists>t. map_of (topics c') n = Some t \<and> topic_meta t = m)"
      by auto
    from update_topics_loop_fixed [OF this] show ?thesis
      by (simp add: again)
  qed
qed

text \<open>
  C4 (idempotence of refresh). Let a call of \<open>update()\<close> fetch the snapshot \<open>md\<close> and
  succeed, and let the next call fetch the identical snapshot. Then the second call
  succeeds as well, the broker map is the same list of the same handles, the topic map
  holds the same handle objects under the same names, and no object has been built:
  nothing is evicted and recreated. When the topic names of \<open>md\<close> are distinct (the keys
  of a dictionary), the second call leaves the whole cluster exactly as it found it.
\<close>

theorem refresh_idempotent:
  assumes "fst (update rm c) = Inr ()"
    and "get_metadata rm c = Inr md"
    and "get_metadata rm' (snd (update rm c)) = Inr md"
  shows "fst (update rm' (snd (update rm c))) = Inr () \<and>
         brokers (snd (update rm' (snd (update rm c)))) = brokers (snd (update rm c)) \<and>
         topic_objs (snd (update rm' (snd (update rm c)))) = topic_objs (snd (update rm c)) \<and>
         next_obj (snd (update rm' (snd (update rm c)))) = next_obj (snd (update rm c)) \<and>
         (distinct (map fst (md_topics md)) \<longrightarrow>
            update rm' (snd (update rm c)) = (Inr (), snd (update rm c)))"
proof -
  let ?cb = "snd (update_brokers c (md_brokers md))"
  let ?c1 = "update_topics ?cb (md_topics md)"
  have first: "fst (update_brokers c (md_brokers md)) = Inr ()" "update rm c = (Inr (), ?c1)"
    using assms(1,2) by (cases rule: update_cases [of rm c]; simp)+
  have c1: "snd (update rm c) = ?c1"
    using first(2) by simp
  have "brokers ?c1 = brokers ?cb"
    by (simp add: update_topics_frame)
  from update_brokers_again [OF first(1) this]
  have ub: "update_brokers ?c1 (md_brokers md) = (Inr (), ?c1)" .
  have fetch: "get_metadata rm' ?c1 = Inr md"
    using assms(3) unfolding c1 .
  have second: "update rm' ?c1 = (Inr (), update_topics ?c1 (md_topics md))"
    by (simp add: update_def fetch ub)
  note again = update_topics_again [of ?c1 ?cb "md_topics md", OF refl]
  have flag: "exclude_internal_topics ?c1 = exclude_internal_topics ?cb"
    by (simp add: update_topics_frame)
  show ?thesis
    unfolding c1 second using again(1) [OF flag] again(2) [OF flag] again(3) [OF flag]
    by (simp add: update_topics_frame)
qed

theorem refresh_idempotent_witness:
  "fst (update answer2 cluster1) = Inr () \<and>
   get_metadata answer2 cluster1 = Inr snapshot2 \<and>
   get_metadata answer2 (snd (update answer2 cluster1)) = Inr snapshot2 \<and>
   distinct (map fst (md_topics snapshot2)) \<and>
   snd (update answer2 cluster1) = cluster2 \<and>
   update answer2 cluster2 = (Inr (), cluster2)"
proof -
  have u: "update answer2 cluster1 = (Inr (), cluster2)"
    by code_simp
  have h1: "fst (update answer2 cluster1) = Inr ()"
    by (simp add: u)
  have h2: "get_metadata answer2 cluster1 = Inr snapshot2"
    by (simp add: get_metadata_def cluster1_def answer2_def)
  have h3: "get_metadata answer2 (snd (update answer2 cluster1)) = Inr snapshot2"
    by (simp add: u get_metadata_def cluster2_def answer2_def)
  have d: "distinct (map fst (md_topics snapshot2))"
    by (simp add: snapshot2_def)
  from refresh_idempotent [OF h1 h2 h3] h1 h2 h3 d u show ?thesis
    by simp
qed

end
